theory Spec2Isabelle
  imports Main "HOL-Library.Sublist"
begin

section \<open>Python strings\<close>

text \<open>
  A Python \<open>str\<close> is a sequence of Unicode code points, and \<open>len\<close>, \<open>split\<close>, \<open>strip\<close> and
  \<open>re.sub\<close> all work on code points. The content of a file is therefore a list of code
  points; \<open>py\<close> turns a literal into that list.
\<close>

type_synonym pystr = "nat list"

definition py :: "string \<Rightarrow> pystr" where
  "py s = map of_char s"

abbreviation NL :: nat where "NL \<equiv> 10"
abbreviation SP :: nat where "SP \<equiv> 32"
abbreviation DQ :: nat where "DQ \<equiv> 34"
abbreviation SQ :: nat where "SQ \<equiv> 39"
abbreviation COMMA :: nat where "COMMA \<equiv> 44"
abbreviation RBRACKET :: nat where "RBRACKET \<equiv> 93"

text \<open>
  \<open>str.isspace\<close>, which is also what \<open>str.strip()\<close> removes and what \<open>\s\<close> matches in a
  \<open>str\<close> pattern: the code points 9-13, 28-32, 133, 160, 5760, 8192-8202, 8232, 8233,
  8239, 8287 and 12288.
\<close>

definition isspace :: "nat \<Rightarrow> bool" where
  "isspace c \<longleftrightarrow>
     (9 \<le> c \<and> c \<le> 13) \<or> (28 \<le> c \<and> c \<le> 32) \<or> c = 133 \<or> c = 160 \<or> c = 5760 \<or>
     (8192 \<le> c \<and> c \<le> 8202) \<or> c = 8232 \<or> c = 8233 \<or> c = 8239 \<or> c = 8287 \<or>
     c = 12288"

text \<open>\<open>content.split('\n')\<close>: the pieces between newlines, always at least one.\<close>

fun split_nl :: "pystr \<Rightarrow> pystr list" where
  "split_nl [] = [[]]"
| "split_nl (c # cs) =
     (if c = NL then [] # split_nl cs
      else (case split_nl cs of [] \<Rightarrow> [[c]] | l # ls \<Rightarrow> (c # l) # ls))"

text \<open>\<open>'\n'.join(lines)\<close>.\<close>

fun join_nl :: "pystr list \<Rightarrow> pystr" where
  "join_nl [] = []"
| "join_nl [l] = l"
| "join_nl (l # ls) = l @ NL # join_nl ls"

text \<open>\<open>line.strip()\<close> and \<open>s.startswith(p)\<close>.\<close>

definition strip :: "pystr \<Rightarrow> pystr" where
  "strip s = rev (dropWhile isspace (rev (dropWhile isspace s)))"

definition startswith :: "pystr \<Rightarrow> pystr \<Rightarrow> bool" where
  "startswith s p \<longleftrightarrow> prefix p s"

definition dark :: pystr where
  "dark = py ''dark:''"

section \<open>Whole-line elision\<close>

text \<open>
  The \<open>for line in lines\<close> loop of \<open>remove-dark-classes.py\<close> (lines 14-20) and of
  \<open>remove-dark-admin-pages.py\<close> (lines 15-19); the second argument is \<open>filtered_lines\<close>.
\<close>

definition only_dark :: "pystr \<Rightarrow> bool" where
  "only_dark line \<longleftrightarrow>
     (let stripped = strip line
      in startswith stripped (SQ # dark) \<or> startswith stripped (DQ # dark))"

fun filter_loop :: "pystr list \<Rightarrow> pystr list \<Rightarrow> pystr list" where
  "filter_loop [] filtered_lines = filtered_lines"
| "filter_loop (line # lines) filtered_lines =
     (if only_dark line then filter_loop lines filtered_lines
      else filter_loop lines (filtered_lines @ [line]))"

definition filter_lines :: "pystr \<Rightarrow> pystr" where
  "filter_lines content = join_nl (filter_loop (split_nl content) [])"

section \<open>The substitutions\<close>

text \<open>
  \<open>re.sub(r'\s+dark:[^\s\'"]*', '', content)\<close>. \<open>tokchar\<close> is the class \<open>[^\s'"]\<close>.
  \<open>match_dark s\<close> tries the pattern at the start of \<open>s\<close> and gives what follows the match:
  \<open>\s+\<close> takes the whole run of whitespace (giving part of it back cannot help, since the
  next character would be whitespace and not \<open>d\<close>), then \<open>dark:\<close> must follow, then the
  class takes every character it can. \<open>sub_dark\<close> is the scan of \<open>re.sub\<close>: the leftmost
  match is replaced by the empty string and the scan goes on behind it; where the pattern
  does not match, one character is copied.
\<close>

definition tokchar :: "nat \<Rightarrow> bool" where
  "tokchar c \<longleftrightarrow> \<not> isspace c \<and> c \<noteq> SQ \<and> c \<noteq> DQ"

definition match_dark :: "pystr \<Rightarrow> pystr option" where
  "match_dark s =
     (let r = dropWhile isspace s
      in if takeWhile isspace s \<noteq> [] \<and> startswith r dark
         then Some (dropWhile tokchar (drop (length dark) r)) else None)"

lemma length_dark: "length dark = 5"
  by (simp add: dark_def py_def)

lemma match_dark_shorter: "match_dark s = Some r \<Longrightarrow> length r < length s"
proof -
  assume a: "match_dark s = Some r"
  let ?t = "takeWhile isspace s" and ?d = "dropWhile isspace s"
  from a have t: "?t \<noteq> []" and r: "r = dropWhile tokchar (drop (length dark) ?d)"
    by (auto simp: match_dark_def Let_def split: if_splits)
  have "length r \<le> length (drop (length dark) ?d)"
    unfolding r by (rule length_dropWhile_le)
  then have 1: "length r \<le> length ?d"
    by simp
  have "length (?t @ ?d) = length s"
    by simp
  then have 2: "length s = length ?t + length ?d"
    by (simp only: length_append)
  from t have 3: "0 < length ?t"
    by simp
  from 1 2 3 show ?thesis
    by arith
qed

function sub_dark :: "pystr \<Rightarrow> pystr" where
  "sub_dark [] = []"
| "sub_dark (c # cs) =
     (case match_dark (c # cs) of
        Some rest \<Rightarrow> sub_dark rest
      | None \<Rightarrow> c # sub_dark cs)"
  by pat_completeness auto
termination
  by (relation "measure length") (auto dest: match_dark_shorter)

text \<open>\<open>re.sub(r'  +', ' ', content)\<close>: a run of two or more spaces becomes one space.\<close>

function sub_spaces :: "pystr \<Rightarrow> pystr" where
  "sub_spaces [] = []"
| "sub_spaces (c # cs) =
     (if c = SP \<and> startswith cs [SP]
      then SP # sub_spaces (dropWhile (\<lambda>x. x = SP) cs)
      else c # sub_spaces cs)"
  by pat_completeness auto
termination
  by (relation "measure length") (auto simp: less_Suc_eq_le length_dropWhile_le)

text \<open>
  \<open>re.sub(r" '", "'", content)\<close> and its siblings for \<open>"\<close>, \<open>]\<close> and \<open>,\<close>: a space right
  before the character \<open>q\<close> is dropped.
\<close>

fun sub_space_before :: "nat \<Rightarrow> pystr \<Rightarrow> pystr" where
  "sub_space_before q [] = []"
| "sub_space_before q (c # cs) =
     (if c = SP \<and> startswith cs [q] then q # sub_space_before q (tl cs)
      else c # sub_space_before q cs)"

section \<open>The three scripts\<close>

text \<open>\<open>remove_dark_classes\<close> of \<open>remove-dark-admin-pages.py\<close>.\<close>

definition remove_dark_classes_admin_pages :: "pystr \<Rightarrow> pystr" where
  "remove_dark_classes_admin_pages content =
     (let content = filter_lines content;
          content = sub_dark content
      in content)"

text \<open>\<open>remove_dark_classes\<close> of \<open>remove-dark-classes.py\<close>.\<close>

definition remove_dark_classes :: "pystr \<Rightarrow> pystr" where
  "remove_dark_classes content =
     (let content = filter_lines content;
          content = sub_dark content;
          content = sub_spaces content;
          content = sub_space_before SQ content;
          content = sub_space_before DQ content;
          content = sub_space_before RBRACKET content;
          content = sub_space_before COMMA content
      in content)"

text \<open>\<open>remove_dark_classes\<close> of \<open>remove-dark-from-components.py\<close>.\<close>

definition remove_dark_classes_components :: "pystr \<Rightarrow> pystr" where
  "remove_dark_classes_components content =
     (let content = sub_dark content;
          content = sub_spaces content;
          content = sub_space_before SQ content;
          content = sub_space_before DQ content;
          content = sub_space_before COMMA content
      in content)"

section \<open>Predicates on contents\<close>

text \<open>
  \<open>stops s\<close>: the class \<open>[^\s'"]\<close> cannot take the first character of \<open>s\<close>.
  \<open>no_ws_dark s\<close>: nowhere in \<open>s\<close> is a whitespace character followed by \<open>dark:\<close>.
\<close>

fun stops :: "pystr \<Rightarrow> bool" where
  "stops [] = True"
| "stops (c # cs) = (\<not> tokchar c)"

fun no_ws_dark :: "pystr \<Rightarrow> bool" where
  "no_ws_dark [] = True"
| "no_ws_dark (c # cs) = (\<not> (isspace c \<and> prefix dark cs) \<and> no_ws_dark cs)"

text \<open>
  Stated from the specification, for the token elimination it promises: \<open>has_dark_token out\<close>
  holds when a run beginning with \<open>dark:\<close> starts \<open>out\<close> or follows a whitespace character
  (a newline included) or a quote.
\<close>

fun dark_after_delimiter :: "pystr \<Rightarrow> bool" where
  "dark_after_delimiter [] = False"
| "dark_after_delimiter (c # cs) =
     (((isspace c \<or> c = SQ \<or> c = DQ) \<and> prefix dark cs) \<or> dark_after_delimiter cs)"

definition has_dark_token :: "pystr \<Rightarrow> bool" where
  "has_dark_token out \<longleftrightarrow> prefix dark out \<or> dark_after_delimiter out"

text \<open>
  The normalization as the specification words it: \<open>collapse_spaces\<close> leaves one space of
  every run of two or more (a space followed by a space is dropped),
  \<open>delete_space_before q\<close> drops a space that \<open>q\<close> follows, and \<open>normalization\<close> applies the
  five steps in the order given.
\<close>

fun collapse_spaces :: "pystr \<Rightarrow> pystr" where
  "collapse_spaces (a # b # cs) =
     (if a = SP \<and> b = SP then collapse_spaces (b # cs) else a # collapse_spaces (b # cs))"
| "collapse_spaces cs = cs"

fun delete_space_before :: "nat \<Rightarrow> pystr \<Rightarrow> pystr" where
  "delete_space_before q (a # b # cs) =
     (if a = SP \<and> b = q then delete_space_before q (b # cs)
      else a # delete_space_before q (b # cs))"
| "delete_space_before q cs = cs"

definition normalization :: "pystr \<Rightarrow> pystr" where
  "normalization s =
     delete_space_before COMMA (delete_space_before RBRACKET
       (delete_space_before DQ (delete_space_before SQ (collapse_spaces s))))"

text \<open>
  \<open>ends_nonspace s\<close>: \<open>s\<close> is empty or its last character is not whitespace.
  \<open>starts_space s\<close>: \<open>s\<close> is empty or its first character is whitespace.
\<close>

fun ends_nonspace :: "pystr \<Rightarrow> bool" where
  "ends_nonspace [] = True"
| "ends_nonspace (c # cs) = (if cs = [] then \<not> isspace c else ends_nonspace cs)"

fun starts_space :: "pystr \<Rightarrow> bool" where
  "starts_space [] = True"
| "starts_space (c # cs) = isspace c"

section \<open>The scans as loops that might not return\<close>

text \<open>
  The scan of \<open>re.sub\<close> as the loop it is: \<open>out\<close> collects the pieces written so far and
  the second argument is what is left to read. The recursion is stated without a
  termination argument: \<open>None\<close> is the value of a scan that does not return.
  \<open>remove_dark_classes_run\<close> is \<open>remove_dark_classes\<close> of \<open>remove-dark-classes.py\<close> with
  these scans. The source has no \<open>raise\<close>, and \<open>split\<close>, \<open>strip\<close>, \<open>startswith\<close>, \<open>join\<close> and
  \<open>re.sub\<close> with these fixed patterns accept every \<open>str\<close>, so there is no error value.
\<close>

partial_function (option) sub_dark_scan :: "pystr \<Rightarrow> pystr \<Rightarrow> pystr option" where
  "sub_dark_scan out s =
     (case s of
        [] \<Rightarrow> Some out
      | c # cs \<Rightarrow>
          (case match_dark (c # cs) of
             Some rest \<Rightarrow> sub_dark_scan out rest
           | None \<Rightarrow> sub_dark_scan (out @ [c]) cs))"

partial_function (option) sub_spaces_scan :: "pystr \<Rightarrow> pystr \<Rightarrow> pystr option" where
  "sub_spaces_scan out s =
     (case s of
        [] \<Rightarrow> Some out
      | c # cs \<Rightarrow>
          (if c = SP \<and> startswith cs [SP]
           then sub_spaces_scan (out @ [SP]) (dropWhile (\<lambda>x. x = SP) cs)
           else sub_spaces_scan (out @ [c]) cs))"

definition remove_dark_classes_run :: "pystr \<Rightarrow> pystr option" where
  "remove_dark_classes_run content =
     Option.bind (sub_dark_scan [] (filter_lines content)) (\<lambda>content.
     Option.bind (sub_spaces_scan [] content) (\<lambda>content.
       Some (sub_space_before COMMA (sub_space_before RBRACKET
         (sub_space_before DQ (sub_space_before SQ content))))))"

lemmas run_defs =
  remove_dark_classes_def remove_dark_classes_admin_pages_def remove_dark_classes_components_def
  filter_lines_def only_dark_def strip_def startswith_def match_dark_def tokchar_def
  isspace_def dark_def py_def has_dark_token_def

section \<open>The scan for dark: tokens\<close>

lemma dark_eq: "dark = [100, 97, 114, 107, 58]"
  by (simp add: dark_def py_def)

lemma tokchar_dark: "c \<in> set dark \<Longrightarrow> tokchar c"
  by (auto simp: dark_eq tokchar_def isspace_def)

lemma tokchar_not_space: "tokchar c \<Longrightarrow> \<not> isspace c"
  by (simp add: tokchar_def)

lemma match_dark_Nil: "match_dark [] = None"
  by (simp add: match_dark_def)

lemma match_dark_nonspace: "\<not> isspace c \<Longrightarrow> match_dark (c # cs) = None"
  by (simp add: match_dark_def)

lemma sub_dark_nonspace: "\<not> isspace c \<Longrightarrow> sub_dark (c # cs) = c # sub_dark cs"
  by (simp add: match_dark_nonspace)

lemma stops_dropWhile: "stops (dropWhile tokchar xs)"
  by (induction xs) auto

lemma match_dark_stops: "match_dark s = Some r \<Longrightarrow> stops r"
  by (auto simp: match_dark_def Let_def stops_dropWhile split: if_splits)

lemma sub_dark_stops: "stops xs \<Longrightarrow> stops (sub_dark xs)"
proof (induction xs rule: sub_dark.induct)
  case 1
  show ?case by simp
next
  case (2 c cs)
  show ?case
  proof (cases "match_dark (c # cs)")
    case None
    with "2.prems" show ?thesis by simp
  next
    case (Some rest)
    with "2.IH"(2) [OF Some match_dark_stops [OF Some]] show ?thesis by simp
  qed
qed

lemma prefix_sub_dark:
  "\<forall>c \<in> set p. tokchar c \<Longrightarrow> prefix p (sub_dark xs) \<Longrightarrow> prefix p xs"
proof (induction p arbitrary: xs)
  case Nil
  show ?case by simp
next
  case (Cons a p)
  from Cons.prems have a: "tokchar a" by simp
  show ?case
  proof (cases xs)
    case Nil
    with Cons.prems show ?thesis by simp
  next
    case (Cons y ys)
    show ?thesis
    proof (cases "tokchar y")
      case True
      then have "sub_dark xs = y # sub_dark ys"
        unfolding Cons by (intro sub_dark_nonspace tokchar_not_space)
      with Cons.prems Cons.IH [of ys] Cons show ?thesis by simp
    next
      case False
      then have "stops (sub_dark xs)"
        using Cons by (intro sub_dark_stops) simp
      with Cons.prems(2) a show ?thesis
        by (cases "sub_dark xs") auto
    qed
  qed
qed

lemma match_dark_single: "isspace c \<Longrightarrow> prefix dark cs \<Longrightarrow> match_dark (c # cs) \<noteq> None"
proof -
  assume c: "isspace c" and p: "prefix dark cs"
  then obtain d ds where cs: "cs = d # ds" and "d = 100"
    by (cases cs) (auto simp: dark_eq)
  then have "\<not> isspace d" by (simp add: isspace_def)
  with c p cs show ?thesis
    by (simp add: match_dark_def startswith_def)
qed

lemma no_ws_dark_sub_dark: "no_ws_dark (sub_dark xs)"
proof (induction xs rule: sub_dark.induct)
  case 1
  show ?case by simp
next
  case (2 c cs)
  show ?case
  proof (cases "match_dark (c # cs)")
    case (Some rest)
    with "2.IH"(2) show ?thesis by simp
  next
    case None
    have "\<not> (isspace c \<and> prefix dark (sub_dark cs))"
    proof
      assume h: "isspace c \<and> prefix dark (sub_dark cs)"
      then have "prefix dark cs"
        using prefix_sub_dark [of dark cs] tokchar_dark by blast
      with h None match_dark_single show False by blast
    qed
    with None "2.IH"(1) show ?thesis by simp
  qed
qed


section \<open>The clean-up keeps whitespace away from dark:\<close>

lemma prefix_sub_spaces: "SP \<notin> set p \<Longrightarrow> prefix p (sub_spaces xs) \<Longrightarrow> prefix p xs"
proof (induction xs arbitrary: p rule: sub_spaces.induct)
  case 1
  then show ?case by simp
next
  case (2 c cs)
  show ?case
  proof (cases p)
    case Nil
    then show ?thesis by simp
  next
    case (Cons a p')
    with "2.prems" have a: "a \<noteq> SP" and p': "SP \<notin> set p'" by auto
    show ?thesis
    proof (cases "c = SP \<and> startswith cs [SP]")
      case True
      with "2.prems"(2) Cons a show ?thesis by simp
    next
      case False
      with "2.prems"(2) Cons have "a = c" and "prefix p' (sub_spaces cs)" by auto
      with "2.IH"(2) [OF False p'] Cons show ?thesis by simp
    qed
  qed
qed

lemma no_ws_dark_dropWhile: "no_ws_dark xs \<Longrightarrow> no_ws_dark (dropWhile P xs)"
  by (induction xs) auto

lemma no_dark_after_spaces:
  "no_ws_dark (SP # cs) \<Longrightarrow> \<not> prefix dark (dropWhile (\<lambda>x. x = SP) cs)"
proof (induction cs)
  case Nil
  show ?case by (simp add: dark_eq)
next
  case (Cons x cs)
  have sp: "isspace SP" by (simp add: isspace_def)
  show ?case
  proof (cases "x = SP")
    case True
    with Cons show ?thesis by simp
  next
    case False
    with Cons.prems sp show ?thesis by simp
  qed
qed

lemma no_ws_dark_sub_spaces: "no_ws_dark xs \<Longrightarrow> no_ws_dark (sub_spaces xs)"
proof (induction xs rule: sub_spaces.induct)
  case 1
  show ?case by simp
next
  case (2 c cs)
  have nd: "SP \<notin> set dark" by (simp add: dark_eq)
  show ?case
  proof (cases "c = SP \<and> startswith cs [SP]")
    case True
    let ?d = "dropWhile (\<lambda>x. x = SP) cs"
    from "2.prems" True have "\<not> prefix dark ?d"
      using no_dark_after_spaces [of cs] by simp
    then have "\<not> prefix dark (sub_spaces ?d)"
      using prefix_sub_spaces [OF nd] by blast
    moreover have "no_ws_dark (sub_spaces ?d)"
      using "2.IH"(1) [OF True] "2.prems" by (simp add: no_ws_dark_dropWhile)
    ultimately show ?thesis using True by simp
  next
    case False
    then have eq: "sub_spaces (c # cs) = c # sub_spaces cs"
      by auto
    from "2.prems" have "\<not> (isspace c \<and> prefix dark (sub_spaces cs))"
      using prefix_sub_spaces [OF nd] by auto
    moreover have "no_ws_dark (sub_spaces cs)"
      using "2.IH"(2) [OF False] "2.prems" by simp
    ultimately show ?thesis unfolding eq by simp
  qed
qed

lemma prefix_sub_space_before:
  "q \<notin> set p \<Longrightarrow> prefix p (sub_space_before q xs) \<Longrightarrow> prefix p xs"
proof (induction xs arbitrary: p)
  case Nil
  then show ?case by simp
next
  case (Cons c cs)
  show ?case
  proof (cases p)
    case Nil
    then show ?thesis by simp
  next
    case p: (Cons a p')
    with Cons.prems have a: "a \<noteq> q" and p': "q \<notin> set p'" by auto
    show ?thesis
    proof (cases "c = SP \<and> startswith cs [q]")
      case True
      with Cons.prems(2) p a show ?thesis by simp
    next
      case False
      with Cons.prems(2) p have "a = c" and "prefix p' (sub_space_before q cs)" by auto
      with Cons.IH [OF p'] p show ?thesis by simp
    qed
  qed
qed

lemma no_ws_dark_sub_space_before:
  "q \<notin> set dark \<Longrightarrow> no_ws_dark xs \<Longrightarrow> no_ws_dark (sub_space_before q xs)"
proof (induction xs rule: sub_space_before.induct)
  case (1 q)
  show ?case by simp
next
  case (2 q c cs)
  note nd = "2.prems"(1)
  show ?case
  proof (cases "c = SP \<and> startswith cs [q]")
    case True
    then obtain cs' where cs: "cs = q # cs'"
      by (cases cs) (auto simp: startswith_def)
    from "2.prems"(2) cs have "\<not> (isspace q \<and> prefix dark cs')" and n: "no_ws_dark cs'"
      by simp_all
    then have "\<not> (isspace q \<and> prefix dark (sub_space_before q cs'))"
      using prefix_sub_space_before [OF nd] by blast
    moreover have "no_ws_dark (sub_space_before q cs')"
      using "2.IH"(1) [OF True nd] n cs by simp
    ultimately show ?thesis using True cs by simp
  next
    case False
    then have eq: "sub_space_before q (c # cs) = c # sub_space_before q cs"
      by auto
    from "2.prems"(2) have "\<not> (isspace c \<and> prefix dark (sub_space_before q cs))"
      using prefix_sub_space_before [OF nd] by auto
    moreover have "no_ws_dark (sub_space_before q cs)"
      using "2.IH"(2) [OF False nd] "2.prems"(2) by simp
    ultimately show ?thesis unfolding eq by simp
  qed
qed

lemma no_ws_dark_remove_dark_classes: "no_ws_dark (remove_dark_classes s)"
  unfolding remove_dark_classes_def Let_def
  by (intro no_ws_dark_sub_space_before no_ws_dark_sub_spaces no_ws_dark_sub_dark)
     (simp_all add: dark_eq)

lemma no_ws_dark_append: "isspace c \<Longrightarrow> \<not> no_ws_dark (pre @ c # dark @ post)"
  by (induction pre) auto

section \<open>What is left of dark: tokens\<close>

text \<open>
  C9. For every content, the result of \<open>remove_dark_classes\<close> of \<open>remove-dark-classes.py\<close>
  has no whitespace character immediately followed by \<open>dark:\<close>: the result is never of
  the form \<open>pre + c + 'dark:' + post\<close> with \<open>c\<close> a whitespace character.
\<close>

theorem no_whitespace_before_dark:
  "isspace c \<Longrightarrow> remove_dark_classes s \<noteq> pre @ c # dark @ post"
  using no_ws_dark_remove_dark_classes [of s] no_ws_dark_append [of c pre post] by auto

theorem no_whitespace_before_dark_witness:
  \<open>isspace SP \<and> remove_dark_classes (py ''a dark:b c'') = py ''a c'' \<and>
   remove_dark_classes (py ''a dark:b c'') \<noteq> py ''a'' @ SP # dark @ py ''b c''\<close>
  using no_whitespace_before_dark [of SP "py ''a dark:b c''" "py ''a''" "py ''b c''"]
  by (simp add: run_defs)

text \<open>
  C1, where the code falls short of it. A token beginning with \<open>dark:\<close> that comes first
  inside its quotes, or that starts the content, has no whitespace before it and is not on
  a line of its own, so neither pass touches it: \<open>class="dark:x y"\<close> and \<open>dark:x\<close> are
  returned unchanged by \<open>remove_dark_classes\<close> of \<open>remove-dark-classes.py\<close>, and the result
  still has a delimited token beginning with \<open>dark:\<close>. The docstring of the function says
  that all \<open>dark:\<close> classes are removed, and the driver's re-scan for \<open>\bdark:\<close> counts these
  as remaining.
\<close>

theorem token_elimination_failing_input:
  \<open>remove_dark_classes (py ''class="dark:x y"'') = py ''class="dark:x y"'' \<and>
   has_dark_token (remove_dark_classes (py ''class="dark:x y"'')) \<and>
   remove_dark_classes (py ''dark:x'') = py ''dark:x'' \<and>
   has_dark_token (remove_dark_classes (py ''dark:x''))\<close>
  by (simp add: run_defs)

section \<open>Whole-line elision, proved\<close>

lemma filter_loop_filter:
  "filter_loop lines acc = acc @ filter (\<lambda>line. \<not> only_dark line) lines"
  by (induction lines arbitrary: acc) auto

text \<open>
  C5. The loop keeps, in order, exactly the lines whose stripped text starts with neither
  \<open>'dark:\<close> nor \<open>"dark:\<close>, and drops every other line whole (the loop is the same text in
  \<open>remove-dark-classes.py\<close> and \<open>remove-dark-admin-pages.py\<close>); the pass returns the kept
  lines joined by newlines. The line \<open>  'dark:bg-gray-800',\<close> between two other lines is gone
  with its newline.
\<close>

theorem line_elision:
  \<open>filter_loop (split_nl s) [] =
     filter (\<lambda>line. \<not> (prefix (SQ # dark) (strip line) \<or> prefix (DQ # dark) (strip line)))
       (split_nl s) \<and>
   filter_lines s =
     join_nl (filter (\<lambda>line. \<not> (prefix (SQ # dark) (strip line) \<or> prefix (DQ # dark) (strip line)))
       (split_nl s)) \<and>
   filter_lines (py ''a\<newline>  'dark:bg-gray-800',\<newline>b'') = py ''a\<newline>b''\<close>
proof -
  have l: "only_dark = (\<lambda>line. prefix (SQ # dark) (strip line) \<or> prefix (DQ # dark) (strip line))"
    by (simp add: only_dark_def startswith_def fun_eq_iff Let_def)
  have 1: "filter_loop (split_nl s) [] = filter (\<lambda>line. \<not> only_dark line) (split_nl s)"
    by (simp add: filter_loop_filter)
  have 2: "filter_lines s = join_nl (filter (\<lambda>line. \<not> only_dark line) (split_nl s))"
    by (simp add: filter_lines_def filter_loop_filter)
  have 3: \<open>filter_lines (py ''a\<newline>  'dark:bg-gray-800',\<newline>b'') = py ''a\<newline>b''\<close>
    by (simp add: run_defs)
  from 1 2 3 show ?thesis
    unfolding l by blast
qed

section \<open>The later script adds clean-up only\<close>

lemma collapse_spaces_SP: "collapse_spaces (SP # cs) = SP # collapse_spaces (dropWhile (\<lambda>x. x = SP) cs)"
  by (induction cs) auto

lemma sub_spaces_collapse: "sub_spaces s = collapse_spaces s"
proof (induction s rule: sub_spaces.induct)
  case 1
  show ?case by simp
next
  case (2 c cs)
  show ?case
  proof (cases "c = SP \<and> startswith cs [SP]")
    case True
    with "2.IH"(1) show ?thesis by (simp add: collapse_spaces_SP)
  next
    case False
    with "2.IH"(2) show ?thesis
      by (cases cs) (auto simp: startswith_def)
  qed
qed

lemma sub_space_before_delete:
  "q \<noteq> SP \<Longrightarrow> sub_space_before q s = delete_space_before q s"
proof (induction q s rule: sub_space_before.induct)
  case (1 q)
  show ?case by simp
next
  case (2 q c cs)
  show ?case
  proof (cases "c = SP \<and> startswith cs [q]")
    case True
    then obtain cs' where cs: "cs = q # cs'"
      by (cases cs) (auto simp: startswith_def)
    have "delete_space_before q (q # cs') = q # delete_space_before q cs'"
      using "2.prems" by (cases cs') auto
    with True cs "2.IH"(1) [OF True "2.prems"] show ?thesis by simp
  next
    case False
    with "2.IH"(2) [OF False "2.prems"] show ?thesis
      by (cases cs) (auto simp: startswith_def)
  qed
qed

text \<open>
  C8. \<open>remove_dark_classes\<close> of \<open>remove-dark-classes.py\<close> is \<open>remove_dark_classes\<close> of
  \<open>remove-dark-admin-pages.py\<close> followed by the five normalization steps in order.
\<close>

theorem classes_refines_admin_pages:
  "remove_dark_classes s = normalization (remove_dark_classes_admin_pages s)"
  by (simp add: remove_dark_classes_def remove_dark_classes_admin_pages_def normalization_def
      sub_spaces_collapse sub_space_before_delete)

section \<open>Every pass only leaves characters out\<close>

lemma match_dark_suffix: "match_dark s = Some r \<Longrightarrow> suffix r s"
proof -
  assume "match_dark s = Some r"
  then have r: "r = dropWhile tokchar (drop (length dark) (dropWhile isspace s))"
    by (auto simp: match_dark_def Let_def split: if_splits)
  have "suffix r (drop (length dark) (dropWhile isspace s))"
    unfolding r by (rule suffix_dropWhile)
  also have "suffix \<dots> (dropWhile isspace s)"
    by (rule suffix_drop)
  also have "suffix \<dots> s"
    by (rule suffix_dropWhile)
  finally show ?thesis .
qed

lemma subseq_suffix: "subseq xs r \<Longrightarrow> suffix r s \<Longrightarrow> subseq xs s"
  by (auto simp: suffix_def intro: subseq_drop_many)

lemma subseq_sub_dark: "subseq (sub_dark s) s"
proof (induction s rule: sub_dark.induct)
  case 1
  show ?case by simp
next
  case (2 c cs)
  show ?case
  proof (cases "match_dark (c # cs)")
    case None
    with "2.IH"(1) show ?thesis by simp
  next
    case (Some rest)
    from "2.IH"(2) [OF Some] match_dark_suffix [OF Some] have "subseq (sub_dark rest) (c # cs)"
      by (rule subseq_suffix)
    with Some show ?thesis by simp
  qed
qed

lemma subseq_sub_spaces: "subseq (sub_spaces s) s"
proof (induction s rule: sub_spaces.induct)
  case 1
  show ?case by simp
next
  case (2 c cs)
  show ?case
  proof (cases "c = SP \<and> startswith cs [SP]")
    case True
    from "2.IH"(1) [OF True] have "subseq (sub_spaces (dropWhile (\<lambda>x. x = SP) cs)) cs"
      by (rule subseq_suffix) (rule suffix_dropWhile)
    with True show ?thesis by simp
  next
    case False
    then have "sub_spaces (c # cs) = c # sub_spaces cs" by auto
    with "2.IH"(2) [OF False] show ?thesis by simp
  qed
qed

lemma subseq_sub_space_before: "subseq (sub_space_before q s) s"
proof (induction q s rule: sub_space_before.induct)
  case (1 q)
  show ?case by simp
next
  case (2 q c cs)
  show ?case
  proof (cases "c = SP \<and> startswith cs [q]")
    case True
    then obtain cs' where cs: "cs = q # cs'"
      by (cases cs) (auto simp: startswith_def)
    from "2.IH"(1) [OF True] cs have "subseq (q # sub_space_before q cs') (q # cs')"
      by simp
    then have "subseq (q # sub_space_before q cs') (c # q # cs')"
      by (rule list_emb_Cons)
    with True cs show ?thesis by simp
  next
    case False
    then have "sub_space_before q (c # cs) = c # sub_space_before q cs" by auto
    with "2.IH"(2) [OF False] show ?thesis by simp
  qed
qed

lemma split_nl_not_Nil: "split_nl s \<noteq> []"
  by (induction s) (auto split: list.splits)

lemma join_nl_Cons: "join_nl (l # ls) = (if ls = [] then l else l @ NL # join_nl ls)"
  by (cases ls) auto

lemma join_split_nl: "join_nl (split_nl s) = s"
proof (induction s)
  case Nil
  show ?case by simp
next
  case (Cons c cs)
  obtain l ls where sp: "split_nl cs = l # ls"
    using split_nl_not_Nil [of cs] by (cases "split_nl cs") auto
  with Cons show ?case
    by (auto simp: join_nl_Cons split: if_splits)
qed

lemma subseq_append_right: "subseq xs (xs @ ys)"
  by (induction xs) auto

lemma subseq_join_tl: "subseq (join_nl ls) (join_nl (l # ls))"
proof (cases "ls = []")
  case True
  then show ?thesis by simp
next
  case False
  have "subseq (join_nl ls) ((l @ [NL]) @ join_nl ls)"
    by (rule subseq_drop_many) simp
  with False show ?thesis by (simp add: join_nl_Cons)
qed

lemma subseq_join_filter: "subseq (join_nl (filter P ls)) (join_nl ls)"
proof (induction ls)
  case Nil
  show ?case by simp
next
  case (Cons l ls)
  show ?case
  proof (cases "P l")
    case False
    from Cons subseq_join_tl [of ls l] have "subseq (join_nl (filter P ls)) (join_nl (l # ls))"
      by (rule subseq_order.trans)
    with False show ?thesis by simp
  next
    case True
    show ?thesis
    proof (cases "filter P ls = []")
      case e: True
      have "subseq l (join_nl (l # ls))"
        by (cases "ls = []") (simp_all add: join_nl_Cons subseq_append_right)
      with True e show ?thesis by simp
    next
      case ne: False
      then have "ls \<noteq> []" by auto
      from Cons have "subseq (l @ NL # join_nl (filter P ls)) (l @ NL # join_nl ls)"
        by (simp add: subseq_append')
      with True ne \<open>ls \<noteq> []\<close> show ?thesis by (simp add: join_nl_Cons)
    qed
  qed
qed

lemma subseq_filter_lines: "subseq (filter_lines s) s"
  using subseq_join_filter [of "\<lambda>line. \<not> only_dark line" "split_nl s"]
  by (simp add: filter_lines_def filter_loop_filter join_split_nl)

lemma subseq_admin_pages: "subseq (remove_dark_classes_admin_pages s) s"
  unfolding remove_dark_classes_admin_pages_def Let_def
  by (rule subseq_order.trans [OF subseq_sub_dark subseq_filter_lines])

lemma subseq_cleanup:
  "subseq t s \<Longrightarrow>
   subseq (sub_space_before COMMA (sub_space_before b (sub_space_before DQ
     (sub_space_before SQ (sub_spaces t))))) s"
proof -
  assume 0: "subseq t s"
  let ?s1 = "sub_spaces t"
  let ?s2 = "sub_space_before SQ ?s1"
  let ?s3 = "sub_space_before DQ ?s2"
  let ?s4 = "sub_space_before b ?s3"
  have 1: "subseq ?s1 s"
    by (rule subseq_order.trans [OF subseq_sub_spaces 0])
  have 2: "subseq ?s2 s"
    by (rule subseq_order.trans [OF subseq_sub_space_before 1])
  have 3: "subseq ?s3 s"
    by (rule subseq_order.trans [OF subseq_sub_space_before 2])
  have 4: "subseq ?s4 s"
    by (rule subseq_order.trans [OF subseq_sub_space_before 3])
  show ?thesis
    by (rule subseq_order.trans [OF subseq_sub_space_before 4])
qed

lemma subseq_classes: "subseq (remove_dark_classes s) s"
  unfolding remove_dark_classes_def Let_def
  by (rule subseq_cleanup [OF subseq_admin_pages [unfolded remove_dark_classes_admin_pages_def Let_def]])

lemma subseq_count: "subseq xs ys \<Longrightarrow> count_list xs a \<le> count_list ys a"
  by (induction rule: list_emb.induct) auto

lemma subseq_components: "subseq (remove_dark_classes_components s) s"
proof -
  let ?s0 = "sub_dark s"
  let ?s1 = "sub_spaces ?s0"
  let ?s2 = "sub_space_before SQ ?s1"
  let ?s3 = "sub_space_before DQ ?s2"
  have 1: "subseq ?s1 s"
    by (rule subseq_order.trans [OF subseq_sub_spaces subseq_sub_dark])
  have 2: "subseq ?s2 s"
    by (rule subseq_order.trans [OF subseq_sub_space_before 1])
  have 3: "subseq ?s3 s"
    by (rule subseq_order.trans [OF subseq_sub_space_before 2])
  have "subseq (sub_space_before COMMA ?s3) s"
    by (rule subseq_order.trans [OF subseq_sub_space_before 3])
  then show ?thesis
    by (simp add: remove_dark_classes_components_def)
qed

text \<open>
  C10. In all three scripts the result of \<open>remove_dark_classes\<close> is not longer than the
  content it was given and has no more newline characters: every pass only leaves
  characters out, so the result is a subsequence of the content.
\<close>

theorem output_not_longer:
  "length (remove_dark_classes s) \<le> length s \<and>
   length (remove_dark_classes_admin_pages s) \<le> length s \<and>
   length (remove_dark_classes_components s) \<le> length s \<and>
   count_list (remove_dark_classes s) NL \<le> count_list s NL \<and>
   count_list (remove_dark_classes_admin_pages s) NL \<le> count_list s NL \<and>
   count_list (remove_dark_classes_components s) NL \<le> count_list s NL"
  using subseq_classes [of s] subseq_admin_pages [of s] subseq_components [of s]
  by (simp add: subseq_count list_emb_length)

section \<open>The inline pass removes a token as one unit\<close>

lemma dropWhile_stops: "stops xs \<Longrightarrow> dropWhile tokchar xs = xs"
  by (cases xs) auto

lemma match_dark_run:
  assumes "ws \<noteq> []" and ws: "\<forall>c \<in> set ws. isspace c" and tok: "\<forall>c \<in> set tok. tokchar c"
    and "stops rest"
  shows "match_dark (ws @ dark @ tok @ rest) = Some rest"
proof -
  have d: "\<not> isspace 100" by (simp add: isspace_def)
  have t: "takeWhile isspace (ws @ dark @ tok @ rest) = ws"
    using ws d by (simp add: dark_eq)
  have r: "dropWhile isspace (ws @ dark @ tok @ rest) = dark @ tok @ rest"
    using ws d by (simp add: dark_eq)
  have "dropWhile tokchar (tok @ rest) = rest"
    using tok \<open>stops rest\<close> by (simp add: dropWhile_stops)
  with t r \<open>ws \<noteq> []\<close> show ?thesis
    by (simp add: match_dark_def startswith_def)
qed

lemma sub_dark_run:
  assumes "ws \<noteq> []" and "\<forall>c \<in> set ws. isspace c" and "\<forall>c \<in> set tok. tokchar c"
    and "stops rest"
  shows "sub_dark (ws @ dark @ tok @ rest) = sub_dark rest"
proof -
  from \<open>ws \<noteq> []\<close> obtain w ws' where w: "ws = w # ws'"
    by (cases ws) auto
  from match_dark_run [OF assms] show ?thesis
    unfolding w by simp
qed

lemma ends_nonspace_last: "ends_nonspace xs \<longleftrightarrow> xs = [] \<or> \<not> isspace (last xs)"
  by (induction xs) auto

lemma ends_nonspace_suffix: "ends_nonspace xs \<Longrightarrow> suffix r xs \<Longrightarrow> ends_nonspace r"
  by (auto simp: ends_nonspace_last suffix_def)

lemma dropWhile_tokchar_append:
  "starts_space X \<Longrightarrow> dropWhile tokchar (e @ X) = dropWhile tokchar e @ X"
proof (induction e)
  case Nil
  then show ?case by (cases X) (auto simp: tokchar_def)
next
  case (Cons a e)
  then show ?case by simp
qed

lemma prefix_dark_append:
  assumes "starts_space X" and "d \<noteq> []"
  shows "prefix dark (d @ X) \<longleftrightarrow> prefix dark d"
proof
  assume "prefix dark d"
  then show "prefix dark (d @ X)" by (rule prefix_prefix)
next
  assume a: "prefix dark (d @ X)"
  show "prefix dark d"
  proof (rule ccontr)
    assume n: "\<not> prefix dark d"
    with a obtain us where us: "dark = d @ us" "prefix us X"
      by (auto simp: prefix_append)
    with n have "us \<noteq> []"
      by auto
    with us obtain u us' X' where u: "us = u # us'" "X = u # X'"
      by (cases us; cases X) auto
    from u(2) assms(1) have "isspace u"
      by simp
    moreover from us(1) have "set dark = set (d @ us)"
      by (rule arg_cong)
    then have "u \<in> set dark"
      unfolding u(1) by simp
    ultimately have "isspace u" "u \<in> set dark" .
    with tokchar_dark tokchar_not_space show False
      by blast
  qed
qed

lemma match_dark_append:
  assumes pre: "pre \<noteq> []" "ends_nonspace pre" and X: "starts_space X"
  shows "match_dark (pre @ X) = map_option (\<lambda>r. r @ X) (match_dark pre)"
proof -
  from pre have l: "last pre \<in> set pre" "\<not> isspace (last pre)"
    by (auto simp: ends_nonspace_last)
  then have t: "takeWhile isspace (pre @ X) = takeWhile isspace pre"
    and d: "dropWhile isspace (pre @ X) = dropWhile isspace pre @ X"
    by simp_all
  from l have ne: "dropWhile isspace pre \<noteq> []"
    by auto
  show ?thesis
  proof (cases "prefix dark (dropWhile isspace pre)")
    case False
    with prefix_dark_append [OF X ne] t d show ?thesis
      by (simp add: match_dark_def startswith_def)
  next
    case True
    then obtain e where e: "dropWhile isspace pre = dark @ e"
      by (auto simp: prefix_def)
    with True t d dropWhile_tokchar_append [OF X, of e] show ?thesis
      by (simp add: match_dark_def startswith_def length_dark [symmetric])
  qed
qed

lemma sub_dark_append:
  "ends_nonspace pre \<Longrightarrow> starts_space X \<Longrightarrow> sub_dark (pre @ X) = sub_dark pre @ sub_dark X"
proof (induction pre rule: sub_dark.induct)
  case 1
  show ?case by simp
next
  case (2 c cs)
  have m: "match_dark ((c # cs) @ X) = map_option (\<lambda>r. r @ X) (match_dark (c # cs))"
    using "2.prems" by (intro match_dark_append) simp_all
  show ?case
  proof (cases "match_dark (c # cs)")
    case None
    from "2.prems"(1) have "ends_nonspace cs"
      by (cases cs) (auto split: if_splits)
    with "2.IH"(1) [OF None _ "2.prems"(2)] None m show ?thesis
      by simp
  next
    case (Some r)
    from "2.prems"(1) match_dark_suffix [OF Some] have "ends_nonspace r"
      by (rule ends_nonspace_suffix)
    with "2.IH"(2) [OF Some _ "2.prems"(2)] Some m show ?thesis
      by simp
  qed
qed

text \<open>
  C6. A run of one or more whitespace characters, then \<open>dark:\<close>, then zero or more
  characters that are neither whitespace nor a quote is removed as one unit by the inline
  pass, wherever it stands: with the run taken whole (what precedes it does not end in
  whitespace, what follows it does not begin with a character of the class), the pass on
  \<open>pre + run + rest\<close> gives the pass on \<open>pre\<close> followed by the pass on \<open>rest\<close>. So
  \<open>dark:hover:text-red-500\<close> goes whole, and \<open>className="text-white dark:text-black px-2"\<close>
  becomes \<open>className="text-white px-2"\<close>.
\<close>

theorem inline_token_removal:
  assumes "ws \<noteq> []" and "\<forall>c \<in> set ws. isspace c" and "\<forall>c \<in> set tok. tokchar c"
    and "rest = [] \<or> \<not> tokchar (hd rest)" and "pre = [] \<or> \<not> isspace (last pre)"
  shows \<open>sub_dark (pre @ ws @ dark @ tok @ rest) = sub_dark pre @ sub_dark rest \<and>
    sub_dark (py ''a dark:hover:text-red-500 b'') = py ''a b'' \<and>
    remove_dark_classes (py ''className="text-white dark:text-black px-2"'') =
      py ''className="text-white px-2"''\<close>
proof -
  from assms(4) have rest: "stops rest"
    by (cases rest) auto
  from assms(1,2) have X: "starts_space (ws @ dark @ tok @ rest)"
    by (cases ws) auto
  from assms(5) have "ends_nonspace pre"
    by (simp add: ends_nonspace_last)
  then have "sub_dark (pre @ ws @ dark @ tok @ rest) = sub_dark pre @ sub_dark (ws @ dark @ tok @ rest)"
    using X by (rule sub_dark_append)
  also have "sub_dark (ws @ dark @ tok @ rest) = sub_dark rest"
    using assms(1,2,3) rest by (rule sub_dark_run)
  finally have 1: "sub_dark (pre @ ws @ dark @ tok @ rest) = sub_dark pre @ sub_dark rest" .
  have 2: \<open>sub_dark (py ''a dark:hover:text-red-500 b'') = py ''a b''\<close>
    by (simp add: run_defs)
  have 3: \<open>remove_dark_classes (py ''className="text-white dark:text-black px-2"'') =
      py ''className="text-white px-2"''\<close>
    by (simp add: run_defs)
  from 1 2 3 show ?thesis by blast
qed

theorem inline_token_removal_witness:
  \<open>sub_dark (py ''x='' @ py ''  '' @ dark @ py ''y:z'' @ py '' w'') =
     sub_dark (py ''x='') @ sub_dark (py '' w'') \<and>
   sub_dark (py ''x=  dark:y:z w'') = py ''x= w''\<close>
proof -
  have "sub_dark (py ''x='' @ py ''  '' @ dark @ py ''y:z'' @ py '' w'') =
     sub_dark (py ''x='') @ sub_dark (py '' w'')"
    using inline_token_removal [of "py ''  ''" "py ''y:z''" "py '' w''" "py ''x=''"]
    by (simp add: py_def isspace_def tokchar_def)
  moreover have "sub_dark (py ''x=  dark:y:z w'') = py ''x= w''"
    by (simp add: run_defs)
  ultimately show ?thesis by blast
qed

section \<open>Contents that the transformation leaves alone\<close>

lemma match_dark_not_free: "match_dark s = Some r \<Longrightarrow> \<not> no_ws_dark s"
proof -
  assume "match_dark s = Some r"
  then have t: "takeWhile isspace s \<noteq> []" and p: "prefix dark (dropWhile isspace s)"
    by (auto simp: match_dark_def Let_def startswith_def split: if_splits)
  let ?t = "takeWhile isspace s"
  from p obtain e where e: "dropWhile isspace s = dark @ e"
    by (auto simp: prefix_def)
  from t have "last ?t \<in> set ?t"
    by simp
  then have sp: "isspace (last ?t)"
    by (rule set_takeWhileD [THEN conjunct2])
  have "s = ?t @ dropWhile isspace s"
    by simp
  also have "\<dots> = (butlast ?t @ [last ?t]) @ dark @ e"
    using t e by simp
  finally have "s = butlast ?t @ last ?t # dark @ e"
    by simp
  with no_ws_dark_append [OF sp, of "butlast ?t" e] show ?thesis
    by simp
qed

lemma sub_dark_id: "no_ws_dark s \<Longrightarrow> sub_dark s = s"
proof (induction s)
  case Nil
  show ?case by simp
next
  case (Cons c cs)
  from Cons.prems match_dark_not_free [of "c # cs"] have "match_dark (c # cs) = None"
    by (cases "match_dark (c # cs)") auto
  with Cons show ?case by simp
qed

lemma no_dark_no_ws_dark: "\<not> sublist dark s \<Longrightarrow> no_ws_dark s"
  by (induction s) (auto simp: sublist_Cons_right)

lemma sublist_pair_Cons:
  "sublist [a, b] (c # cs) \<longleftrightarrow> (c = a \<and> prefix [b] cs) \<or> sublist [a, b] cs"
  by (auto simp: sublist_Cons_right)

lemma sub_spaces_id: "\<not> sublist [SP, SP] s \<Longrightarrow> sub_spaces s = s"
  by (induction s) (auto simp: sublist_pair_Cons startswith_def)

lemma sub_space_before_id: "\<not> sublist [SP, q] s \<Longrightarrow> sub_space_before q s = s"
  by (induction s) (auto simp: sublist_pair_Cons startswith_def)

lemma filter_lines_id: "\<forall>line \<in> set (split_nl s). \<not> only_dark line \<Longrightarrow> filter_lines s = s"
proof -
  assume "\<forall>line \<in> set (split_nl s). \<not> only_dark line"
  then have "filter (\<lambda>line. \<not> only_dark line) (split_nl s) = split_nl s"
    by (simp add: filter_id_conv)
  then show ?thesis
    by (simp add: filter_lines_def filter_loop_filter join_split_nl)
qed

lemma clean_fixpoint:
  assumes "no_ws_dark t" and "\<not> sublist [SP, SP] t" and "\<not> sublist [SP, SQ] t"
    and "\<not> sublist [SP, DQ] t" and "\<not> sublist [SP, RBRACKET] t" and "\<not> sublist [SP, COMMA] t"
    and "\<forall>line \<in> set (split_nl t). \<not> only_dark line"
  shows "remove_dark_classes t = t"
  using assms
  by (simp add: remove_dark_classes_def filter_lines_id sub_dark_id sub_spaces_id
      sub_space_before_id)

lemma split_nl_hd_prefix: "split_nl s = l # ls \<Longrightarrow> prefix l s"
proof (induction s arbitrary: l ls)
  case Nil
  then show ?case by simp
next
  case (Cons c cs)
  then show ?case
    by (cases "split_nl cs") (auto split: if_splits)
qed

lemma split_nl_sublist: "line \<in> set (split_nl s) \<Longrightarrow> sublist line s"
proof (induction s arbitrary: line)
  case Nil
  then show ?case by simp
next
  case (Cons c cs)
  obtain l ls where sp: "split_nl cs = l # ls"
    using split_nl_not_Nil [of cs] by (cases "split_nl cs") auto
  show ?case
  proof (cases "c = NL")
    case True
    with Cons.prems have "line = [] \<or> line \<in> set (split_nl cs)"
      by simp
    with Cons.IH show ?thesis
      by (auto simp: sublist_Cons_right)
  next
    case False
    with Cons.prems sp have "line = c # l \<or> line \<in> set ls"
      by simp
    then show ?thesis
    proof
      assume "line = c # l"
      with split_nl_hd_prefix [OF sp] show ?thesis
        by (simp add: sublist_Cons_right)
    next
      assume "line \<in> set ls"
      with sp Cons.IH [of line] show ?thesis
        by (simp add: sublist_Cons_right)
    qed
  qed
qed

lemma strip_sublist: "sublist (strip line) line"
proof -
  have "suffix (dropWhile isspace (rev (dropWhile isspace line))) (rev (dropWhile isspace line))"
    by (rule suffix_dropWhile)
  then have "prefix (strip line) (dropWhile isspace line)"
    by (simp add: strip_def suffix_to_prefix)
  then have "sublist (strip line) (dropWhile isspace line)"
    by (rule prefix_imp_sublist)
  moreover have "sublist (dropWhile isspace line) line"
    by (rule sublist_dropWhile)
  ultimately show ?thesis
    by (rule sublist_order.order_trans)
qed

lemma only_dark_sublist: "only_dark line \<Longrightarrow> sublist dark line"
proof -
  assume "only_dark line"
  then obtain q where "prefix (q # dark) (strip line)"
    by (auto simp: only_dark_def startswith_def Let_def)
  then have "sublist (q # dark) (strip line)"
    by (rule prefix_imp_sublist)
  moreover have "sublist dark (q # dark)"
    by (simp add: sublist_Cons_right)
  ultimately have "sublist dark (strip line)"
    using sublist_order.order_trans by blast
  then show ?thesis
    using strip_sublist sublist_order.order_trans by blast
qed

lemma no_dark_no_only_dark:
  "\<not> sublist dark s \<Longrightarrow> \<forall>line \<in> set (split_nl s). \<not> only_dark line"
  using only_dark_sublist split_nl_sublist sublist_order.order_trans by blast

text \<open>
  C2 (as the code behaves). A content with no \<open>dark:\<close> in it, and with nothing for the
  clean-up to do (no two spaces in a row, no space right before \<open>'\<close>, \<open>"\<close>, \<open>]\<close> or \<open>,\<close>),
  is returned unchanged by \<open>remove_dark_classes\<close> of \<open>remove-dark-classes.py\<close>.
\<close>

theorem noop_on_clean_input:
  assumes "\<not> sublist dark s" and "\<not> sublist [SP, SP] s" and "\<not> sublist [SP, SQ] s"
    and "\<not> sublist [SP, DQ] s" and "\<not> sublist [SP, RBRACKET] s" and "\<not> sublist [SP, COMMA] s"
  shows "remove_dark_classes s = s"
  using no_dark_no_ws_dark [OF assms(1)] assms(2-6) no_dark_no_only_dark [OF assms(1)]
  by (rule clean_fixpoint)

theorem noop_on_clean_input_witness:
  \<open>\<not> sublist dark (py ''<a class="x y">'') \<and>
   remove_dark_classes (py ''<a class="x y">'') = py ''<a class="x y">''\<close>
proof -
  have 1: \<open>\<not> sublist dark (py ''<a class="x y">'')\<close>
    by (simp add: py_def dark_def sublist_Cons_right)
  from noop_on_clean_input [OF 1] 1 show ?thesis
    by (simp add: py_def sublist_Cons_right)
qed

text \<open>
  C2 as stated fails: the clean-up substitutions run on the whole content, so a content
  without \<open>dark:\<close> is still changed where it has two spaces or a space before a comma.
\<close>

theorem noop_on_clean_input_counterexample:
  \<open>\<not> sublist dark (py ''a  b , c'') \<and>
   remove_dark_classes (py ''a  b , c'') = py ''a b, c'' \<and>
   remove_dark_classes (py ''a  b , c'') \<noteq> py ''a  b , c''\<close>
  by (simp add: run_defs sublist_Cons_right)

section \<open>Applying the transformation twice\<close>

lemma sub_spaces_head: "prefix [a] (sub_spaces xs) \<longleftrightarrow> prefix [a] xs"
  by (cases xs) auto

lemma no_space_after_spaces: "\<not> prefix [SP] (dropWhile (\<lambda>x. x = SP) cs)"
  by (induction cs) auto

lemma no_double_sub_spaces: "\<not> sublist [SP, SP] (sub_spaces s)"
proof (induction s rule: sub_spaces.induct)
  case 1
  show ?case by simp
next
  case (2 c cs)
  show ?case
  proof (cases "c = SP \<and> startswith cs [SP]")
    case True
    with "2.IH"(1) [OF True] show ?thesis
      by (simp add: sublist_pair_Cons sub_spaces_head no_space_after_spaces)
  next
    case False
    then have eq: "sub_spaces (c # cs) = c # sub_spaces cs"
      by auto
    from False "2.IH"(2) [OF False] show ?thesis
      unfolding eq by (auto simp: sublist_pair_Cons sub_spaces_head startswith_def)
  qed
qed

lemma keep_no_pair:
  "q \<noteq> SP \<Longrightarrow> r \<noteq> q \<Longrightarrow> \<not> sublist [SP, r] s \<Longrightarrow>
   \<not> sublist [SP, r] (sub_space_before q s)"
proof (induction q s rule: sub_space_before.induct)
  case (1 q)
  show ?case by simp
next
  case (2 q c cs)
  show ?case
  proof (cases "c = SP \<and> startswith cs [q]")
    case True
    then obtain cs' where cs: "cs = q # cs'"
      by (cases cs) (auto simp: startswith_def)
    from "2.prems"(3) cs have "\<not> sublist [SP, r] cs'"
      by (simp add: sublist_pair_Cons)
    with "2.IH"(1) [OF True "2.prems"(1,2)] cs have "\<not> sublist [SP, r] (sub_space_before q cs')"
      by simp
    with True cs "2.prems"(1) show ?thesis
      by (simp add: sublist_pair_Cons)
  next
    case False
    then have eq: "sub_space_before q (c # cs) = c # sub_space_before q cs"
      by auto
    from "2.prems"(3) have n: "\<not> (c = SP \<and> prefix [r] cs)" and "\<not> sublist [SP, r] cs"
      by (simp_all add: sublist_pair_Cons)
    with "2.IH"(2) [OF False "2.prems"(1,2)] have "\<not> sublist [SP, r] (sub_space_before q cs)"
      by simp
    moreover have "\<not> (c = SP \<and> prefix [r] (sub_space_before q cs))"
      using n prefix_sub_space_before [of q "[r]" cs] "2.prems"(2) by auto
    ultimately show ?thesis
      unfolding eq by (simp add: sublist_pair_Cons)
  qed
qed

lemma no_space_before_after_sub:
  "q \<noteq> SP \<Longrightarrow> \<not> sublist [SP, SP] s \<Longrightarrow> \<not> sublist [SP, q] (sub_space_before q s)"
proof (induction q s rule: sub_space_before.induct)
  case (1 q)
  show ?case by simp
next
  case (2 q c cs)
  show ?case
  proof (cases "c = SP \<and> startswith cs [q]")
    case True
    then obtain cs' where cs: "cs = q # cs'"
      by (cases cs) (auto simp: startswith_def)
    from "2.prems"(2) cs have "\<not> sublist [SP, SP] cs'"
      by (simp add: sublist_pair_Cons)
    with "2.IH"(1) [OF True "2.prems"(1)] cs have "\<not> sublist [SP, q] (sub_space_before q cs')"
      by simp
    with True cs "2.prems"(1) show ?thesis
      by (simp add: sublist_pair_Cons)
  next
    case False
    then have eq: "sub_space_before q (c # cs) = c # sub_space_before q cs"
      by auto
    from "2.prems"(2) have n: "\<not> (c = SP \<and> prefix [SP] cs)" and "\<not> sublist [SP, SP] cs"
      by (simp_all add: sublist_pair_Cons)
    with "2.IH"(2) [OF False "2.prems"(1)] have "\<not> sublist [SP, q] (sub_space_before q cs)"
      by simp
    moreover have "\<not> (c = SP \<and> prefix [q] (sub_space_before q cs))"
      using n False "2.prems"(1) by (cases cs) (auto simp: startswith_def split: if_splits)
    ultimately show ?thesis
      unfolding eq by (simp add: sublist_pair_Cons)
  qed
qed

lemma result_clean:
  "\<not> sublist [SP, SP] (remove_dark_classes s) \<and> \<not> sublist [SP, SQ] (remove_dark_classes s) \<and>
   \<not> sublist [SP, DQ] (remove_dark_classes s) \<and> \<not> sublist [SP, RBRACKET] (remove_dark_classes s) \<and>
   \<not> sublist [SP, COMMA] (remove_dark_classes s)"
proof -
  let ?s1 = "sub_spaces (sub_dark (filter_lines s))"
  let ?s2 = "sub_space_before SQ ?s1"
  let ?s3 = "sub_space_before DQ ?s2"
  let ?s4 = "sub_space_before RBRACKET ?s3"
  let ?s5 = "sub_space_before COMMA ?s4"
  have a1: "\<not> sublist [SP, SP] ?s1"
    by (rule no_double_sub_spaces)
  have a2: "\<not> sublist [SP, SP] ?s2"
    by (rule keep_no_pair [OF _ _ a1]) simp_all
  have a3: "\<not> sublist [SP, SP] ?s3"
    by (rule keep_no_pair [OF _ _ a2]) simp_all
  have a4: "\<not> sublist [SP, SP] ?s4"
    by (rule keep_no_pair [OF _ _ a3]) simp_all
  have a5: "\<not> sublist [SP, SP] ?s5"
    by (rule keep_no_pair [OF _ _ a4]) simp_all
  have b2: "\<not> sublist [SP, SQ] ?s2"
    by (rule no_space_before_after_sub [OF _ a1]) simp
  have b3: "\<not> sublist [SP, SQ] ?s3"
    by (rule keep_no_pair [OF _ _ b2]) simp_all
  have b4: "\<not> sublist [SP, SQ] ?s4"
    by (rule keep_no_pair [OF _ _ b3]) simp_all
  have b5: "\<not> sublist [SP, SQ] ?s5"
    by (rule keep_no_pair [OF _ _ b4]) simp_all
  have c3: "\<not> sublist [SP, DQ] ?s3"
    by (rule no_space_before_after_sub [OF _ a2]) simp
  have c4: "\<not> sublist [SP, DQ] ?s4"
    by (rule keep_no_pair [OF _ _ c3]) simp_all
  have c5: "\<not> sublist [SP, DQ] ?s5"
    by (rule keep_no_pair [OF _ _ c4]) simp_all
  have d4: "\<not> sublist [SP, RBRACKET] ?s4"
    by (rule no_space_before_after_sub [OF _ a3]) simp
  have d5: "\<not> sublist [SP, RBRACKET] ?s5"
    by (rule keep_no_pair [OF _ _ d4]) simp_all
  have e5: "\<not> sublist [SP, COMMA] ?s5"
    by (rule no_space_before_after_sub [OF _ a4]) simp
  have "remove_dark_classes s = ?s5"
    by (simp add: remove_dark_classes_def)
  with a5 b5 c5 d5 e5 show ?thesis
    by simp
qed

text \<open>
  C3 (as the code behaves). If no line of the result of \<open>remove_dark_classes\<close> of
  \<open>remove-dark-classes.py\<close> has a stripped text that starts with \<open>'dark:\<close> or \<open>"dark:\<close>, a
  second application returns the same result.
\<close>

theorem idempotent_without_dark_lines:
  assumes "\<forall>line \<in> set (split_nl (remove_dark_classes s)). \<not> only_dark line"
  shows "remove_dark_classes (remove_dark_classes s) = remove_dark_classes s"
  using no_ws_dark_remove_dark_classes [of s] result_clean [of s] assms
  by (intro clean_fixpoint) simp_all

theorem idempotent_without_dark_lines_witness:
  \<open>remove_dark_classes (py ''a dark:b  c'') = py ''a c'' \<and>
   split_nl (py ''a c'') = [py ''a c''] \<and> \<not> only_dark (py ''a c'') \<and>
   remove_dark_classes (remove_dark_classes (py ''a dark:b  c'')) =
     remove_dark_classes (py ''a dark:b  c'')\<close>
proof -
  have 1: \<open>remove_dark_classes (py ''a dark:b  c'') = py ''a c''\<close>
    by (simp add: run_defs)
  have 2: \<open>split_nl (py ''a c'') = [py ''a c'']\<close>
    by (simp add: py_def)
  have 3: \<open>\<not> only_dark (py ''a c'')\<close>
    by (simp add: run_defs)
  from 1 2 3 have "\<forall>line \<in> set (split_nl (remove_dark_classes (py ''a dark:b  c''))). \<not> only_dark line"
    by simp
  from idempotent_without_dark_lines [OF this] 1 2 3 show ?thesis
    by blast
qed

text \<open>
  C3 as stated fails: on \<open> dark:x'dark:y\<close> the first application removes \<open> dark:x\<close> and
  leaves \<open>'dark:y\<close>, a line that the second application drops whole.
\<close>

theorem idempotence_counterexample:
  \<open>remove_dark_classes (py '' dark:x'dark:y'') = SQ # py ''dark:y'' \<and>
   remove_dark_classes (SQ # py ''dark:y'') = [] \<and>
   remove_dark_classes (remove_dark_classes (py '' dark:x'dark:y'')) \<noteq>
     remove_dark_classes (py '' dark:x'dark:y'')\<close>
  by (simp add: run_defs)

section \<open>The clean-up example\<close>

text \<open>
  C4 (the clean-up as designed). On the input \<open>['a', 'dark:b' , 'c']\<close> the result of
  \<open>remove_dark_classes\<close> of \<open>remove-dark-classes.py\<close> has no two spaces in a row and no space
  right before \<open>'\<close>, \<open>"\<close>, \<open>]\<close> or \<open>,\<close>: the normalization collapses runs of spaces and drops
  the space before the comma and also the space before each quote. On the artifact
  \<open>['a',  , 'c']\<close> itself the function returns \<open>['a',,'c']\<close>.
\<close>

theorem cleanup_example_normalized:
  \<open>\<not> sublist [SP, SP] (remove_dark_classes (py ''['a', 'dark:b' , 'c']'')) \<and>
   \<not> sublist [SP, SQ] (remove_dark_classes (py ''['a', 'dark:b' , 'c']'')) \<and>
   \<not> sublist [SP, DQ] (remove_dark_classes (py ''['a', 'dark:b' , 'c']'')) \<and>
   \<not> sublist [SP, RBRACKET] (remove_dark_classes (py ''['a', 'dark:b' , 'c']'')) \<and>
   \<not> sublist [SP, COMMA] (remove_dark_classes (py ''['a', 'dark:b' , 'c']'')) \<and>
   remove_dark_classes (py ''['a',  , 'c']'') = py ''['a',,'c']''\<close>
proof -
  have \<open>remove_dark_classes (py ''['a',  , 'c']'') = py ''['a',,'c']''\<close>
    by (simp add: run_defs)
  with result_clean [of \<open>py ''['a', 'dark:b' , 'c']''\<close>] show ?thesis
    by blast
qed

text \<open>
  C4 as stated fails: \<open>['a', , 'c']\<close> has a space before a comma and before a quote, and the
  result on \<open>['a', 'dark:b' , 'c']\<close> is a different string.
\<close>

theorem cleanup_example_counterexample:
  \<open>sublist [SP, COMMA] (py ''['a', , 'c']'') \<and>
   remove_dark_classes (py ''['a', 'dark:b' , 'c']'') \<noteq> py ''['a', , 'c']''\<close>
  by (simp add: run_defs sublist_Cons_right)

section \<open>The transformation returns on every content\<close>

lemma sub_dark_scan_returns: "sub_dark_scan out s = Some (out @ sub_dark s)"
proof (induction s arbitrary: out rule: sub_dark.induct)
  case 1
  show ?case by (subst sub_dark_scan.simps) simp
next
  case (2 c cs)
  show ?case
  proof (cases "match_dark (c # cs)")
    case None
    with "2.IH"(1) [OF None, of "out @ [c]"] show ?thesis
      by (subst sub_dark_scan.simps) simp
  next
    case (Some rest)
    with "2.IH"(2) [OF Some, of out] show ?thesis
      by (subst sub_dark_scan.simps) simp
  qed
qed

lemma sub_spaces_scan_returns: "sub_spaces_scan out s = Some (out @ sub_spaces s)"
proof (induction s arbitrary: out rule: sub_spaces.induct)
  case 1
  show ?case by (subst sub_spaces_scan.simps) simp
next
  case (2 c cs)
  show ?case
  proof (cases "c = SP \<and> startswith cs [SP]")
    case True
    with "2.IH"(1) [OF True, of "out @ [SP]"] show ?thesis
      by (subst sub_spaces_scan.simps) simp
  next
    case False
    then have eq: "sub_spaces (c # cs) = c # sub_spaces cs"
      by auto
    from False "2.IH"(2) [OF False, of "out @ [c]"] show ?thesis
      unfolding eq by (subst sub_spaces_scan.simps) auto
  qed
qed

text \<open>
  C7. \<open>remove_dark_classes\<close> of \<open>remove-dark-classes.py\<close> returns a string on every content,
  the empty one and those without \<open>dark:\<close> included: each scan returns, and there is no
  error branch to reach.
\<close>

theorem transformation_total:
  "remove_dark_classes_run s = Some (remove_dark_classes s)"
  by (simp add: remove_dark_classes_run_def remove_dark_classes_def sub_dark_scan_returns
      sub_spaces_scan_returns)

end
